theory Spec2Isabelle
  imports
    Main
    "HOL-Library.Word"
    "HOL-Library.Finite_Map"
    "HOL-Library.List_Lexorder"
begin

unbundle bit_operations_syntax

section \<open>The local-nonces TLV record of lnwire\<close>

text \<open>
  A shallow embedding of \<^verbatim>\<open>lnwire/local_nonces.go\<close>: the encoder and the decoder of the
  TLV value that carries a map from transaction ids to MuSig2 public nonces.

  Conventions of the embedding.
  \<^item> A byte is an \<open>8 word\<close>; the fixed-size arrays \<^verbatim>\<open>chainhash.Hash\<close> (32 bytes) and
    \<^verbatim>\<open>Musig2Nonce\<close> (66 bytes) are byte lists, and the theorems that depend on the sizes
    assume them for the entries of the map being encoded.
  \<^item> A Go map is a finite map (\<open>fmap\<close>); the nil map is \<open>None\<close>.
  \<^item> The \<^verbatim>\<open>val interface{}\<close> argument is a datatype with one constructor for a non-nil
    \<^verbatim>\<open>*LocalNoncesData\<close>, one for the nil pointer of that type and one for any other value.
  \<^item> An \<^verbatim>\<open>io.Reader\<close> is the list of bytes it still holds (a \<^verbatim>\<open>bytes.Reader\<close>); an
    \<^verbatim>\<open>io.Writer\<close> is the bytes written so far together with an optional point of failure.
  \<^item> Every function returns the error (\<open>None\<close> for Go's \<^verbatim>\<open>nil\<close>) together with the state
    it leaves behind: the reader or writer, and the destination value.
\<close>

subsection \<open>Data\<close>

type_synonym byte = "8 word"
type_synonym Hash = "byte list"
type_synonym Musig2Nonce = "byte list"

definition HashSize :: nat where
  "HashSize = 32"

definition PubNonceSize :: nat where
  "PubNonceSize = 66"

record LocalNonceEntry =
  TXID :: Hash
  Nonce :: Musig2Nonce

record LocalNoncesData =
  NoncesMap :: "(Hash, Musig2Nonce) fmap option"

datatype val =
    Ptr LocalNoncesData
  | NilPtr
  | OtherVal

datatype error =
    ErrTypeForEncoding string
  | ErrTypeForDecoding string "64 word" "64 word"
  | EOF
  | ErrUnexpectedEOF
  | ErrSink string
  | PanicNilDereference

text \<open>\<^verbatim>\<open>len(m)\<close> of a Go map: the number of its keys.\<close>

definition len_map :: "('k, 'v) fmap \<Rightarrow> nat" where
  "len_map m = fcard (fmdom m)"

subsection \<open>Readers and writers\<close>

type_synonym reader = "byte list"

text \<open>
  \<^verbatim>\<open>io.ReadFull(r, buf)\<close> with \<open>n = len(buf)\<close>: all \<open>n\<close> bytes or an error, which is
  \<^verbatim>\<open>io.EOF\<close> when no byte could be read and \<^verbatim>\<open>io.ErrUnexpectedEOF\<close> when the source
  ended after some. A failed read has consumed what was left.
\<close>

definition ReadFull :: "reader \<Rightarrow> nat \<Rightarrow> (error + byte list) \<times> reader" where
  "ReadFull r n =
     (if n \<le> length r then (Inr (take n r), drop n r)
      else if r = [] then (Inl EOF, [])
      else (Inl ErrUnexpectedEOF, []))"

text \<open>
  A writer holds the bytes it has accepted. \<open>room = None\<close> is a sink that never fails
  (a \<^verbatim>\<open>bytes.Buffer\<close>); \<open>room = Some (n, e)\<close> is a sink that accepts \<open>n\<close> more bytes and
  answers the write that exceeds them with the error \<open>e\<close>, after taking the bytes that fit.
\<close>

record writer =
  buf :: "byte list"
  room :: "(nat \<times> error) option"

definition Write :: "writer \<Rightarrow> byte list \<Rightarrow> error option \<times> writer" where
  "Write w p =
     (case room w of
        None \<Rightarrow> (None, w\<lparr>buf := buf w @ p\<rparr>)
      | Some (n, e) \<Rightarrow>
          if length p \<le> n then (None, w\<lparr>buf := buf w @ p, room := Some (n - length p, e)\<rparr>)
          else (Some e, w\<lparr>buf := buf w @ take n p, room := Some (0, e)\<rparr>))"

subsection \<open>Big-endian 16-bit integers\<close>

text \<open>\<^verbatim>\<open>binary.BigEndian.PutUint16\<close>: \<^verbatim>\<open>b[0] = byte(v >> 8); b[1] = byte(v)\<close>.\<close>

definition PutUint16 :: "16 word \<Rightarrow> byte list" where
  "PutUint16 v = [ucast (drop_bit 8 v), ucast v]"

text \<open>
  \<^verbatim>\<open>binary.BigEndian.Uint16\<close>: \<^verbatim>\<open>uint16(b[1]) | uint16(b[0])<<8\<close>. It is only applied to
  the two bytes of a successful \<^verbatim>\<open>ReadFull\<close>; on any other list the model returns 0.
\<close>

fun Uint16 :: "byte list \<Rightarrow> 16 word" where
  "Uint16 [b0, b1] = (ucast b1) OR (push_bit 8 (ucast b0))"
| "Uint16 _ = 0"

subsection \<open>Sorting the entries\<close>

text \<open>\<^verbatim>\<open>bytes.Compare\<close>: \<open>-1\<close>, \<open>0\<close> or \<open>1\<close> by the lexicographic order of the bytes.\<close>

fun bytes_Compare :: "byte list \<Rightarrow> byte list \<Rightarrow> int" where
  "bytes_Compare [] [] = 0"
| "bytes_Compare [] (y # ys) = - 1"
| "bytes_Compare (x # xs) [] = 1"
| "bytes_Compare (x # xs) (y # ys) =
     (if x < y then - 1 else if y < x then 1 else bytes_Compare xs ys)"

text \<open>The \<^verbatim>\<open>less\<close> closure handed to \<^verbatim>\<open>sort.Slice\<close>, on the two elements it indexes.\<close>

definition less_entry :: "LocalNonceEntry \<Rightarrow> LocalNonceEntry \<Rightarrow> bool" where
  "less_entry a b \<longleftrightarrow> bytes_Compare (TXID a) (TXID b) < 0"

text \<open>
  \<^verbatim>\<open>sort.Slice\<close> sorts in place by the given \<^verbatim>\<open>less\<close> and promises no stability. It is
  modelled by insertion sort. The keys of a map are distinct, and for distinct keys the
  sorted arrangement is unique (lemma \<open>sorted_entries_unique\<close> below), so every correct
  sorting algorithm returns the list this one returns.
\<close>

fun insert_by :: "('a \<Rightarrow> 'a \<Rightarrow> bool) \<Rightarrow> 'a \<Rightarrow> 'a list \<Rightarrow> 'a list" where
  "insert_by lt x [] = [x]"
| "insert_by lt x (y # ys) =
     (if lt x y then x # y # ys else y # insert_by lt x ys)"

fun sort_Slice :: "'a list \<Rightarrow> ('a \<Rightarrow> 'a \<Rightarrow> bool) \<Rightarrow> 'a list" where
  "sort_Slice [] lt = []"
| "sort_Slice (x # xs) lt = insert_by lt x (sort_Slice xs lt)"

subsection \<open>Encoding\<close>

text \<open>
  \<^verbatim>\<open>for txid, nonce := range lnd.NoncesMap\<close> visits every key once, in an order the
  language leaves open. The order that an execution takes is the list \<open>order\<close>; keys it
  names that are not in the map contribute nothing. \<open>enumerates m order\<close> says that
  \<open>order\<close> is an order in which the keys of \<open>m\<close> can be visited.
\<close>

fun range_map :: "(Hash, Musig2Nonce) fmap \<Rightarrow> Hash list \<Rightarrow> LocalNonceEntry list" where
  "range_map m [] = []"
| "range_map m (txid # order) =
     (case fmlookup m txid of
        None \<Rightarrow> range_map m order
      | Some nonce \<Rightarrow> \<lparr>TXID = txid, Nonce = nonce\<rparr> # range_map m order)"

definition enumerates :: "(Hash, Musig2Nonce) fmap \<Rightarrow> Hash list \<Rightarrow> bool" where
  "enumerates m order \<longleftrightarrow> distinct order \<and> set order = fmdom' m"

text \<open>The loop that writes the entries: the 32 bytes of the id, then the 66 of the nonce.\<close>

fun write_entries :: "writer \<Rightarrow> LocalNonceEntry list \<Rightarrow> error option \<times> writer" where
  "write_entries w [] = (None, w)"
| "write_entries w (entry # entries) =
     (case Write w (TXID entry) of
        (Some err, w1) \<Rightarrow> (Some err, w1)
      | (None, w1) \<Rightarrow>
          (case Write w1 (Nonce entry) of
             (Some err, w2) \<Rightarrow> (Some err, w2)
           | (None, w2) \<Rightarrow> write_entries w2 entries))"

definition encodeLocalNoncesData :: "writer \<Rightarrow> val \<Rightarrow> Hash list \<Rightarrow> error option \<times> writer" where
  "encodeLocalNoncesData w v order =
     (case v of
        OtherVal \<Rightarrow> (Some (ErrTypeForEncoding ''*lnwire.LocalNoncesData''), w)
      | NilPtr \<Rightarrow> (Some PanicNilDereference, w)
      | Ptr lnd \<Rightarrow>
          (let (numEntries, sortedEntries) =
                 (case NoncesMap lnd of
                    None \<Rightarrow> (0 :: 16 word, [])
                  | Some m \<Rightarrow>
                      if len_map m > 0
                      then (let sorted = sort_Slice (range_map m order) less_entry
                            in (of_nat (length sorted), sorted))
                      else (0, []))
           in case Write w (PutUint16 numEntries) of
                (Some err, w1) \<Rightarrow> (Some err, w1)
              | (None, w1) \<Rightarrow> write_entries w1 sortedEntries))"

text \<open>The length function of \<^verbatim>\<open>Record\<close>, computed on Go's \<^verbatim>\<open>int\<close> and converted.\<close>

definition RecordLength :: "LocalNoncesData \<Rightarrow> 64 word" where
  "RecordLength lnd =
     (case NoncesMap lnd of
        None \<Rightarrow> 2
      | Some m \<Rightarrow>
          if len_map m = 0 then 2
          else of_nat (2 + len_map m * (HashSize + PubNonceSize)))"

subsection \<open>Decoding\<close>

text \<open>
  The loop \<^verbatim>\<open>for i := uint16(0); i < numEntries; i++\<close>, from the value \<open>i\<close> of its counter.
  It returns the error, the reader and the map as the loop leaves them.
\<close>

function decode_loop ::
  "16 word \<Rightarrow> 16 word \<Rightarrow> reader \<Rightarrow> (Hash, Musig2Nonce) fmap
     \<Rightarrow> error option \<times> reader \<times> (Hash, Musig2Nonce) fmap" where
  "decode_loop i numEntries r m =
     (if i < numEntries then
        (case ReadFull r HashSize of
           (Inl err, r1) \<Rightarrow> (Some err, r1, m)
         | (Inr txid, r1) \<Rightarrow>
             (case ReadFull r1 PubNonceSize of
                (Inl err, r2) \<Rightarrow> (Some err, r2, m)
              | (Inr nonce, r2) \<Rightarrow> decode_loop (i + 1) numEntries r2 (fmupd txid nonce m)))
      else (None, r, m))"
  by pat_completeness auto
termination
proof (relation "measure (\<lambda>(i, numEntries, r, m). unat numEntries - unat i)")
  show "wf (measure (\<lambda>(i, numEntries, r, m). unat numEntries - unat i))"
    by simp
next
  fix i numEntries :: "16 word"
  fix r :: reader and m :: "(Hash, Musig2Nonce) fmap"
  fix x1 r1 txid x2 r2 nonce
  assume lt: "i < numEntries"
  from lt have below: "unat i < unat numEntries"
    by (simp add: word_less_nat_alt)
  moreover have "unat numEntries < 2 ^ 16"
    using unsigned_less [of numEntries, where 'a = nat] by simp
  ultimately have "unat (i + 1) = Suc (unat i)"
    by (simp add: unat_word_ariths)
  with below show
    "((i + 1, numEntries, r2, fmupd txid nonce m), (i, numEntries, r, m))
       \<in> measure (\<lambda>(i, numEntries, r, m). unat numEntries - unat i)"
    by simp
qed

declare decode_loop.simps [simp del]

definition decodeLocalNoncesData ::
  "reader \<Rightarrow> val \<Rightarrow> 64 word \<Rightarrow> error option \<times> reader \<times> val" where
  "decodeLocalNoncesData r v recordLen =
     (case v of
        OtherVal \<Rightarrow> (Some (ErrTypeForDecoding ''*lnwire.LocalNoncesData'' recordLen 0), r, v)
      | NilPtr \<Rightarrow> (Some PanicNilDereference, r, v)
      | Ptr lnd \<Rightarrow>
          (let m0 = (case NoncesMap lnd of None \<Rightarrow> fmempty | Some m \<Rightarrow> m) in
           if recordLen < 2 then
             (if recordLen = 0 then
                (None, r, Ptr \<lparr>NoncesMap = Some (if len_map m0 > 0 then fmempty else m0)\<rparr>)
              else
                (Some (ErrTypeForDecoding
                         ''lnwire.LocalNoncesData (record too short for numEntries)''
                         recordLen 2),
                 r, Ptr \<lparr>NoncesMap = Some m0\<rparr>))
           else
             (case ReadFull r 2 of
                (Inl err, r1) \<Rightarrow> (Some err, r1, Ptr \<lparr>NoncesMap = Some m0\<rparr>)
              | (Inr numEntriesBytes, r1) \<Rightarrow>
                  (let numEntries = Uint16 numEntriesBytes;
                       expectedTotalRecordLength =
                         2 + ucast numEntries * of_nat (HashSize + PubNonceSize)
                   in
                   if recordLen \<noteq> expectedTotalRecordLength then
                     (Some (ErrTypeForDecoding
                              ''lnwire.LocalNoncesData (record length mismatch)''
                              recordLen expectedTotalRecordLength),
                      r1, Ptr \<lparr>NoncesMap = Some m0\<rparr>)
                   else if numEntries = 0 then
                     (None, r1,
                      Ptr \<lparr>NoncesMap = Some (if len_map m0 > 0 then fmempty else m0)\<rparr>)
                   else
                     (case decode_loop 0 numEntries r1 fmempty of
                        (err, r2, m) \<Rightarrow> (err, r2, Ptr \<lparr>NoncesMap = Some m\<rparr>))))))"

subsection \<open>Notions used to state the properties\<close>

text \<open>The entries a destination holds: a nil map holds none.\<close>

definition contents :: "LocalNoncesData \<Rightarrow> (Hash, Musig2Nonce) fmap" where
  "contents lnd = (case NoncesMap lnd of None \<Rightarrow> fmempty | Some m \<Rightarrow> m)"

text \<open>Every id of the map has 32 bytes and every nonce 66, as the Go array types say.\<close>

definition well_sized :: "(Hash, Musig2Nonce) fmap \<Rightarrow> bool" where
  "well_sized m \<longleftrightarrow> fmpred (\<lambda>txid nonce. length txid = HashSize \<and> length nonce = PubNonceSize) m"

text \<open>The bytes of one entry on the wire.\<close>

definition entry_bytes :: "LocalNonceEntry \<Rightarrow> byte list" where
  "entry_bytes entry = TXID entry @ Nonce entry"

text \<open>
  The entries that are completely present at the front of a byte stream: as many groups of
  32 + 66 bytes as the stream holds, in stream order.
\<close>

function complete_entries :: "byte list \<Rightarrow> LocalNonceEntry list" where
  "complete_entries r =
     (if HashSize + PubNonceSize \<le> length r
      then \<lparr>TXID = take HashSize r, Nonce = take PubNonceSize (drop HashSize r)\<rparr>
             # complete_entries (drop (HashSize + PubNonceSize) r)
      else [])"
  by pat_completeness auto
termination
  by (relation "measure length") (simp_all add: HashSize_def PubNonceSize_def)

declare complete_entries.simps [simp del]

text \<open>Map insertion of a list of entries, first to last: a later entry replaces an earlier one.\<close>

fun insert_entries ::
  "LocalNonceEntry list \<Rightarrow> (Hash, Musig2Nonce) fmap \<Rightarrow> (Hash, Musig2Nonce) fmap" where
  "insert_entries [] m = m"
| "insert_entries (entry # entries) m =
     insert_entries entries (fmupd (TXID entry) (Nonce entry) m)"

text \<open>Every entry of a list has an id of 32 bytes and a nonce of 66.\<close>

definition sized_entries :: "LocalNonceEntry list \<Rightarrow> bool" where
  "sized_entries es \<longleftrightarrow>
     list_all (\<lambda>entry. length (TXID entry) = HashSize \<and> length (Nonce entry) = PubNonceSize) es"

text \<open>
  The entries of a map in ascending order of their ids. The order on ids is the
  lexicographic order of byte lists, first byte first, bytes compared as unsigned numbers.
\<close>

definition canonical_entries :: "(Hash, Musig2Nonce) fmap \<Rightarrow> LocalNonceEntry list" where
  "canonical_entries m = range_map m (sorted_list_of_fset (fmdom m))"

text \<open>The helpers of the test file that build an id and a nonce from one byte.\<close>

definition makeTestTxId :: "byte \<Rightarrow> Hash" where
  "makeTestTxId val = replicate HashSize val"

definition makeTestNonce :: "byte \<Rightarrow> Musig2Nonce" where
  "makeTestNonce val = replicate PubNonceSize val"

text \<open>The error of a read that meets the end of the stream \<open>r\<close> inside the entries.\<close>

definition short_read_error :: "byte list \<Rightarrow> error" where
  "short_read_error r =
     (if length r mod (HashSize + PubNonceSize) = 0
         \<or> length r mod (HashSize + PubNonceSize) = HashSize
      then EOF else ErrUnexpectedEOF)"

text \<open>
  The two validation failures of the decoder, as the values that
  \<^verbatim>\<open>tlv.NewTypeForDecodingErr\<close> is called with: the kinds \<open>TooShort\<close> and
  \<open>LengthMismatch\<close> of the specification.
\<close>

definition TooShort :: "64 word \<Rightarrow> error" where
  "TooShort recordLen =
     ErrTypeForDecoding ''lnwire.LocalNoncesData (record too short for numEntries)'' recordLen 2"

definition LengthMismatch :: "64 word \<Rightarrow> 64 word \<Rightarrow> error" where
  "LengthMismatch recordLen expected =
     ErrTypeForDecoding ''lnwire.LocalNoncesData (record length mismatch)'' recordLen expected"

text \<open>The ascending order of entries: each id is below the ids that follow it.\<close>

abbreviation ascending :: "LocalNonceEntry list \<Rightarrow> bool" where
  "ascending es \<equiv> sorted_wrt (\<lambda>a b. TXID a < TXID b) es"

text \<open>The map of the test case ``multiple entries unsorted''.\<close>

definition multiple_entries :: "(Hash, Musig2Nonce) fmap" where
  "multiple_entries =
     fmupd (makeTestTxId 3) (makeTestNonce 3)
       (fmupd (makeTestTxId 1) (makeTestNonce 1)
          (fmupd (makeTestTxId 2) (makeTestNonce 2) fmempty))"

text \<open>
  A map with 65536 entries, one more than a 16-bit count can express: the ids are the
  numbers 0 to 65535 written in 32 bytes, most significant byte first, and every nonce
  is 66 zero bytes. \<open>many_txids\<close> lists its ids.
\<close>

definition txid_of_nat :: "nat \<Rightarrow> Hash" where
  "txid_of_nat i = replicate 30 0 @ [of_nat (i div 256), of_nat (i mod 256)]"

definition many_txids :: "Hash list" where
  "many_txids = map txid_of_nat [0..<65536]"

definition many_entries :: "(Hash, Musig2Nonce) fmap" where
  "many_entries = fmap_of_list (map (\<lambda>txid. (txid, makeTestNonce 0)) many_txids)"

section \<open>Basic facts\<close>

subsection \<open>Words\<close>

lemma unat_succ_below:
  fixes i n :: "16 word"
  assumes "i < n"
  shows "unat (i + 1) = Suc (unat i)"
proof -
  from assms have "unat i < unat n"
    by (simp add: word_less_nat_alt)
  moreover have "unat n < 2 ^ 16"
    using unsigned_less [of n, where 'a = nat] by simp
  ultimately show ?thesis
    by (simp add: unat_word_ariths)
qed

lemma unat_ucast_16_64: "unat (ucast (n :: 16 word) :: 64 word) = unat n"
proof -
  have "unat n < 2 ^ 16"
    using unsigned_less [of n, where 'a = nat] by simp
  then have "unat n < 2 ^ 64" by simp
  then show ?thesis
    by (simp add: unsigned_ucast_eq take_bit_nat_eq_self)
qed

lemma unat_expected:
  fixes n :: "16 word"
  shows "unat (2 + ucast n * of_nat (HashSize + PubNonceSize) :: 64 word) = 2 + unat n * 98"
proof -
  have "unat n < 2 ^ 16"
    using unsigned_less [of n, where 'a = nat] by simp
  then have "2 + unat n * 98 < (2 :: nat) ^ 64"
    by simp
  then show ?thesis
    by (simp add: unat_word_ariths unat_ucast_16_64 HashSize_def PubNonceSize_def)
qed

lemma Uint16_PutUint16: "Uint16 (PutUint16 v) = v"
  unfolding PutUint16_def
  by (simp, rule bit_word_eqI) (auto simp add: bit_simps)

lemma unat_Uint16: "unat (Uint16 [b0, b1]) = unat b0 * 256 + unat b1"
proof -
  have "ucast b1 OR push_bit 8 (ucast b0 :: 16 word) = ucast b1 + push_bit 8 (ucast b0 :: 16 word)"
    by (rule disjunctive_add_eq_or [symmetric], rule bit_word_eqI)
      (auto simp add: bit_simps dest: bit_imp_le_length)
  moreover have "unat b0 < 2 ^ 8" "unat b1 < 2 ^ 8"
    using unsigned_less [of b0, where 'a = nat] unsigned_less [of b1, where 'a = nat]
    by simp_all
  ultimately show ?thesis
    by (simp add: unat_word_ariths unsigned_ucast_eq take_bit_nat_eq_self push_bit_eq_mult
        unsigned_push_bit_eq)
qed

lemma PutUint16_of_nat:
  fixes n :: nat
  assumes "n < 65536"
  shows "PutUint16 (of_nat n) = [of_nat (n div 256), of_nat (n mod 256)]"
proof -
  from assms have n: "unat (of_nat n :: 16 word) = n"
    by (simp add: unat_of_nat)
  have "unat (drop_bit 8 (of_nat n :: 16 word)) = n div 256"
    by (simp add: drop_bit_eq_div unat_div n)
  then have "unat (ucast (drop_bit 8 (of_nat n :: 16 word)) :: 8 word)
      = unat (of_nat (n div 256) :: 8 word)"
    by (simp only: unsigned_ucast_eq unat_of_nat take_bit_eq_mod)
  moreover have "unat (ucast (of_nat n :: 16 word) :: 8 word) = unat (of_nat (n mod 256) :: 8 word)"
    using assms by (simp add: unsigned_ucast_eq unat_of_nat take_bit_eq_mod)
  ultimately show ?thesis
    by (simp add: PutUint16_def word_unat_eq_iff)
qed

subsection \<open>The decoder\<close>

lemma len_map_0_iff: "len_map m = 0 \<longleftrightarrow> m = fmempty"
proof
  assume "len_map m = 0"
  then have "fmdom m = {||}"
    by (simp add: len_map_def)
  then show "m = fmempty"
    by (intro fmap_ext) (simp add: fmdom_notD)
qed (simp add: len_map_def)

lemma cleared_map: "(if len_map m > 0 then fmempty else m) = fmempty"
  using len_map_0_iff [of m] by auto

lemma decode_loop_done: "\<not> i < n \<Longrightarrow> decode_loop i n r m = (None, r, m)"
  by (simp add: decode_loop.simps)

lemma decode_loop_step:
  "i < n \<Longrightarrow> decode_loop i n r m =
     (case ReadFull r HashSize of
        (Inl err, r1) \<Rightarrow> (Some err, r1, m)
      | (Inr txid, r1) \<Rightarrow>
          (case ReadFull r1 PubNonceSize of
             (Inl err, r2) \<Rightarrow> (Some err, r2, m)
           | (Inr nonce, r2) \<Rightarrow> decode_loop (i + 1) n r2 (fmupd txid nonce m)))"
  by (subst decode_loop.simps) simp

lemma complete_entries_short:
  "length r < 98 \<Longrightarrow> complete_entries r = []"
  by (subst complete_entries.simps) (simp add: HashSize_def PubNonceSize_def)

lemma complete_entries_long:
  "98 \<le> length r \<Longrightarrow>
   complete_entries r
     = \<lparr>TXID = take 32 r, Nonce = take 66 (drop 32 r)\<rparr> # complete_entries (drop 98 r)"
  by (subst complete_entries.simps) (simp add: HashSize_def PubNonceSize_def)

lemma short_read_error_cases: "short_read_error r = EOF \<or> short_read_error r = ErrUnexpectedEOF"
  by (simp add: short_read_error_def)

text \<open>
  What the loop does with \<open>k\<close> entries left to read: it inserts the entries that the
  stream holds completely, and fails at the first that it does not.
\<close>

lemma decode_loop_spec:
  assumes "i \<le> n" and "unat n - unat i = k"
  shows "decode_loop i n r m =
     (if k * 98 \<le> length r
      then (None, drop (k * 98) r, insert_entries (take k (complete_entries r)) m)
      else (Some (short_read_error r), [], insert_entries (complete_entries r) m))"
  using assms
proof (induction k arbitrary: i r m)
  case 0
  then have "\<not> i < n"
    by (simp add: word_less_nat_alt word_le_nat_alt)
  then show ?case
    by (simp add: decode_loop_done)
next
  case (Suc k)
  then have lt: "i < n"
    by (simp add: word_less_nat_alt)
  then have next_le: "i + 1 \<le> n"
    by (rule inc_le)
  from lt Suc.prems have next_k: "unat n - unat (i + 1) = k"
    by (simp add: unat_succ_below)
  note IH = Suc.IH [OF next_le next_k]
  consider (a) "length r < 32" | (b) "32 \<le> length r" "length r < 98" | (c) "98 \<le> length r"
    by linarith
  then show ?case
  proof cases
    case a
    then show ?thesis
      by (simp add: decode_loop_step [OF lt] ReadFull_def HashSize_def PubNonceSize_def
          complete_entries_short short_read_error_def)
  next
    case b
    then show ?thesis
      by (auto simp add: decode_loop_step [OF lt] ReadFull_def HashSize_def PubNonceSize_def
          complete_entries_short short_read_error_def)
  next
    case c
    have rd1: "ReadFull r HashSize = (Inr (take 32 r), drop 32 r)"
      using c by (simp add: ReadFull_def HashSize_def)
    have rd2: "ReadFull (drop 32 r) PubNonceSize = (Inr (take 66 (drop 32 r)), drop 98 r)"
      using c by (simp add: ReadFull_def PubNonceSize_def)
    have step: "decode_loop i n r m
        = decode_loop (i + 1) n (drop 98 r) (fmupd (take 32 r) (take 66 (drop 32 r)) m)"
      by (simp add: decode_loop_step [OF lt] rd1 rd2)
    have cond: "Suc k * 98 \<le> length r \<longleftrightarrow> k * 98 \<le> length (drop 98 r)"
      using c by auto
    have sre: "short_read_error (drop 98 r) = short_read_error r"
      using c by (simp add: short_read_error_def HashSize_def PubNonceSize_def le_mod_geq)
    have dr: "drop (k * 98) (drop 98 r) = drop (Suc k * 98) r"
      by (simp add: add.commute)
    show ?thesis
      unfolding step IH cond sre dr
      by (simp add: complete_entries_long [OF c])
  qed
qed

lemma decode_loop_from_0:
  "decode_loop 0 n r m =
     (if unat n * 98 \<le> length r
      then (None, drop (unat n * 98) r, insert_entries (take (unat n) (complete_entries r)) m)
      else (Some (short_read_error r), [], insert_entries (complete_entries r) m))"
  by (rule decode_loop_spec) simp_all

text \<open>The decoder on a destination and a stream that holds at least the count field.\<close>

lemma decode_after_count:
  assumes "2 \<le> recordLen"
  shows "decodeLocalNoncesData (b0 # b1 # rest) (Ptr lnd) recordLen =
     (let numEntries = Uint16 [b0, b1];
          expected = 2 + ucast numEntries * of_nat (HashSize + PubNonceSize)
      in if recordLen \<noteq> expected then
           (Some (LengthMismatch recordLen expected), rest,
            Ptr \<lparr>NoncesMap = Some (contents lnd)\<rparr>)
         else if numEntries = 0 then (None, rest, Ptr \<lparr>NoncesMap = Some fmempty\<rparr>)
         else if unat numEntries * 98 \<le> length rest then
           (None, drop (unat numEntries * 98) rest,
            Ptr \<lparr>NoncesMap = Some (insert_entries
              (take (unat numEntries) (complete_entries rest)) fmempty)\<rparr>)
         else
           (Some (short_read_error rest), [],
            Ptr \<lparr>NoncesMap = Some (insert_entries (complete_entries rest) fmempty)\<rparr>))"
proof -
  have rd: "ReadFull (b0 # b1 # rest) 2 = (Inr [b0, b1], rest)"
    by (simp add: ReadFull_def)
  from assms have not_short: "\<not> recordLen < 2"
    by simp
  show ?thesis
    by (simp add: decodeLocalNoncesData_def not_short rd Let_def LengthMismatch_def
        contents_def cleared_map decode_loop_from_0 del: Uint16.simps)
qed

subsection \<open>Streams of whole entries\<close>

lemma length_makeTestTxId [simp]: "length (makeTestTxId val) = 32"
  by (simp add: makeTestTxId_def HashSize_def)

lemma length_makeTestNonce [simp]: "length (makeTestNonce val) = 66"
  by (simp add: makeTestNonce_def PubNonceSize_def)

lemma length_concat_entries:
  "sized_entries es \<Longrightarrow> length (concat (map entry_bytes es)) = length es * 98"
  by (induction es) (simp_all add: sized_entries_def entry_bytes_def HashSize_def PubNonceSize_def)

lemma complete_entries_concat:
  "sized_entries es \<Longrightarrow>
   complete_entries (concat (map entry_bytes es) @ rest) = es @ complete_entries rest"
proof (induction es)
  case Nil
  then show ?case by simp
next
  case (Cons e es)
  from Cons.prems have sizes: "length (TXID e) = 32" "length (Nonce e) = 66"
    and es: "sized_entries es"
    by (simp_all add: sized_entries_def HashSize_def PubNonceSize_def)
  have bytes: "concat (map entry_bytes (e # es)) @ rest
      = TXID e @ Nonce e @ concat (map entry_bytes es) @ rest"
    by (simp add: entry_bytes_def)
  have "98 \<le> length (concat (map entry_bytes (e # es)) @ rest)"
    unfolding bytes using sizes by simp
  from complete_entries_long [OF this] show ?case
    unfolding bytes using sizes Cons.IH [OF es] by simp
qed

lemma insert_entries_lookup:
  "fmlookup (insert_entries es m) k
     = (case map_of (rev (map (\<lambda>e. (TXID e, Nonce e)) es)) k of
          None \<Rightarrow> fmlookup m k
        | Some v \<Rightarrow> Some v)"
  by (induction es m rule: insert_entries.induct) (auto simp add: map_add_def split: option.split)

lemma PutUint16_append: "PutUint16 v @ bs = ucast (drop_bit 8 v) # ucast v # bs"
  by (simp add: PutUint16_def)

lemma Uint16_of_bytes: "Uint16 [ucast (drop_bit 8 v), ucast v] = v"
  using Uint16_PutUint16 [of v] by (simp only: PutUint16_def)

lemma decode_well_formed:
  assumes sized: "sized_entries es" and count: "length es \<le> 65535"
  shows "decodeLocalNoncesData (PutUint16 (of_nat (length es)) @ concat (map entry_bytes es))
           (Ptr lnd) (of_nat (2 + length es * 98))
         = (None, [], Ptr \<lparr>NoncesMap = Some (insert_entries es fmempty)\<rparr>)"
proof -
  let ?n = "of_nat (length es) :: 16 word"
  let ?len = "of_nat (2 + length es * 98) :: 64 word"
  let ?bs = "concat (map entry_bytes es)"
  from count have n: "unat ?n = length es"
    by (simp add: unat_of_nat)
  from count have bound: "2 + length es * 98 < 2 ^ 64"
    by simp
  have len: "unat ?len = 2 + length es * 98"
    unfolding unat_of_nat using bound by simp
  then have two: "2 \<le> ?len"
    by (simp add: word_le_nat_alt)
  have expected: "?len = 2 + ucast ?n * of_nat (HashSize + PubNonceSize)"
    by (simp only: word_unat_eq_iff unat_expected n len)
  have zero: "?n = 0 \<longleftrightarrow> es = []"
    using n by (metis length_0_conv unat_eq_zero)
  have ce: "complete_entries ?bs = es"
    using complete_entries_concat [OF sized, of "[]"] by (simp add: complete_entries_short)
  show ?thesis
    unfolding PutUint16_append
    by (simp only: decode_after_count [OF two] Let_def Uint16_of_bytes expected [symmetric])
      (auto simp add: zero n length_concat_entries [OF sized] ce)
qed

lemma fmupd_neq:
  "k \<noteq> k' \<Longrightarrow> fmupd k v fmempty \<noteq> fmupd k' v' fmempty"
proof
  assume "k \<noteq> k'" and "fmupd k v fmempty = fmupd k' v' fmempty"
  then have "fmlookup (fmupd k v fmempty) k = fmlookup (fmupd k' v' fmempty) k"
    by simp
  with \<open>k \<noteq> k'\<close> show False
    by simp
qed

section \<open>Properties of the decoder\<close>

text \<open>
  Claim C5. When the declared length is at least 2 and the stream holds the two bytes of
  the count, the decoder fails with \<open>LengthMismatch\<close> exactly when the declared length
  differs from \<open>2 + count * 98\<close>, where \<open>count\<close> is the big-endian value of the two bytes;
  a larger and a smaller declared length are refused alike.
\<close>

theorem decode_length_mismatch_iff:
  assumes "2 \<le> recordLen"
  shows "(\<exists>expected. fst (decodeLocalNoncesData (b0 # b1 # rest) (Ptr lnd) recordLen)
             = Some (LengthMismatch recordLen expected))
     \<longleftrightarrow> unat recordLen \<noteq> 2 + (unat b0 * 256 + unat b1) * 98"
proof -
  let ?n = "Uint16 [b0, b1]"
  let ?e = "2 + ucast ?n * of_nat (HashSize + PubNonceSize) :: 64 word"
  have e: "recordLen \<noteq> ?e \<longleftrightarrow> unat recordLen \<noteq> 2 + (unat b0 * 256 + unat b1) * 98"
    by (simp only: word_unat_eq_iff unat_expected unat_Uint16)
  have "fst (decodeLocalNoncesData (b0 # b1 # rest) (Ptr lnd) recordLen) =
     (if recordLen \<noteq> ?e then Some (LengthMismatch recordLen ?e)
      else if ?n = 0 \<or> unat ?n * 98 \<le> length rest then None
      else Some (short_read_error rest))"
    by (simp add: decode_after_count [OF assms] Let_def del: Uint16.simps)
  then show ?thesis
    unfolding e [symmetric]
    using short_read_error_cases [of rest]
    by (auto simp add: LengthMismatch_def simp del: Uint16.simps)
qed

text \<open>
  The theorem at the two mismatches of the test suite: a count of 1 with a declared length
  of 2 (too small) and of 101 (too large).
\<close>

theorem decode_length_mismatch_iff_witness:
  "(2 :: 64 word) \<le> 2
   \<and> (\<exists>expected. fst (decodeLocalNoncesData [0, 1] (Ptr \<lparr>NoncesMap = Some fmempty\<rparr>) 2)
          = Some (LengthMismatch 2 expected))
   \<and> (2 :: 64 word) \<le> 101
   \<and> (\<exists>expected. fst (decodeLocalNoncesData (0 # 1 # replicate 98 0)
            (Ptr \<lparr>NoncesMap = Some fmempty\<rparr>) 101)
          = Some (LengthMismatch 101 expected))"
proof -
  have small: "(2 :: 64 word) \<le> 2" and large: "(2 :: 64 word) \<le> 101"
    by simp_all
  show ?thesis
    using decode_length_mismatch_iff [OF small, of 0 1 "[]" "\<lparr>NoncesMap = Some fmempty\<rparr>"]
      decode_length_mismatch_iff [OF large, of 0 1 "replicate 98 0" "\<lparr>NoncesMap = Some fmempty\<rparr>"]
    by simp
qed

text \<open>
  Claim C6. A declared length of 1 (the only one with \<open>0 < recordLen < 2\<close>) makes the decoder
  fail with \<open>TooShort\<close>; the reader is returned as it was given, so no byte has been
  read, and the destination keeps its entries.
\<close>

theorem decode_too_short:
  assumes "0 < recordLen" and "recordLen < 2"
  shows "decodeLocalNoncesData r (Ptr lnd) recordLen
    = (Some (TooShort recordLen), r, Ptr \<lparr>NoncesMap = Some (contents lnd)\<rparr>)"
  using assms
  by (simp add: decodeLocalNoncesData_def TooShort_def contents_def Let_def word_gt_0)

theorem decode_too_short_witness:
  "(0 :: 64 word) < 1 \<and> (1 :: 64 word) < 2
   \<and> decodeLocalNoncesData [1] (Ptr \<lparr>NoncesMap = Some fmempty\<rparr>) 1
     = (Some (TooShort 1), [1], Ptr \<lparr>NoncesMap = Some fmempty\<rparr>)"
  using decode_too_short [of 1 "[1]" "\<lparr>NoncesMap = Some fmempty\<rparr>"]
  by (simp add: contents_def)

text \<open>
  Claim C7. With a declared length of 0 the decoder succeeds, reads nothing and leaves the
  destination with an empty map; on the two bytes \<open>00 00\<close> with a declared length of 2 it
  succeeds with an empty map as well. This holds for every destination, so entries that the
  destination held before are gone.
\<close>

theorem decode_empty:
  "decodeLocalNoncesData r (Ptr lnd) 0 = (None, r, Ptr \<lparr>NoncesMap = Some fmempty\<rparr>)
   \<and> decodeLocalNoncesData [0, 0] (Ptr lnd) 2 = (None, [], Ptr \<lparr>NoncesMap = Some fmempty\<rparr>)"
  by (simp add: decodeLocalNoncesData_def cleared_map ReadFull_def)

text \<open>
  Claim C10. Whatever the stream and the declared length, and whether the call succeeds or
  fails, a destination whose map is nil has a map that is not nil after the call. With a
  declared length of 1 the call fails and the destination has gone from the nil map to an
  empty one.
\<close>

theorem decode_initialises_nil_map:
  "(\<exists>m. snd (snd (decodeLocalNoncesData r (Ptr \<lparr>NoncesMap = None\<rparr>) recordLen))
          = Ptr \<lparr>NoncesMap = Some m\<rparr>)
   \<and> decodeLocalNoncesData r (Ptr \<lparr>NoncesMap = None\<rparr>) 1
       = (Some (TooShort 1), r, Ptr \<lparr>NoncesMap = Some fmempty\<rparr>)"
  by (simp add: decodeLocalNoncesData_def Let_def TooShort_def split: prod.split sum.split)

text \<open>
  Claim C8. A stream that announces its entries correctly (at most 65535 of them, each of
  32 + 66 bytes, with the matching declared length) is decoded without error also when two
  of its entries carry the same id: the map then holds, for that id, the nonce of the
  later entry. ``Later'' is the last entry of the stream with that id: no entry after the
  second one repeats it.
\<close>

theorem decode_duplicate_last_wins:
  assumes "sized_entries es" and "length es \<le> 65535"
    and "es = before @ \<lparr>TXID = txid, Nonce = nonce1\<rparr> # between
                @ \<lparr>TXID = txid, Nonce = nonce2\<rparr> # after"
    and "txid \<notin> TXID ` set after"
  shows "decodeLocalNoncesData (PutUint16 (of_nat (length es)) @ concat (map entry_bytes es))
           (Ptr lnd) (of_nat (2 + length es * 98))
         = (None, [], Ptr \<lparr>NoncesMap = Some (insert_entries es fmempty)\<rparr>)
       \<and> fmlookup (insert_entries es fmempty) txid = Some nonce2"
proof -
  from assms(4) have "map_of (rev (map (\<lambda>e. (TXID e, Nonce e)) after)) txid = None"
    by (force simp add: map_of_eq_None_iff)
  then have "map_of (rev (map (\<lambda>e. (TXID e, Nonce e)) es)) txid = Some nonce2"
    by (simp add: assms(3) map_add_def)
  then have "fmlookup (insert_entries es fmempty) txid = Some nonce2"
    by (simp add: insert_entries_lookup)
  with decode_well_formed [OF assms(1,2)] show ?thesis
    by simp
qed

theorem decode_duplicate_last_wins_witness:
  "sized_entries [\<lparr>TXID = makeTestTxId 7, Nonce = makeTestNonce 1\<rparr>,
                  \<lparr>TXID = makeTestTxId 7, Nonce = makeTestNonce 2\<rparr>]
   \<and> makeTestTxId 7 \<notin> TXID ` set []
   \<and> fst (decodeLocalNoncesData
       (PutUint16 2 @ concat (map entry_bytes
          [\<lparr>TXID = makeTestTxId 7, Nonce = makeTestNonce 1\<rparr>,
           \<lparr>TXID = makeTestTxId 7, Nonce = makeTestNonce 2\<rparr>]))
       (Ptr \<lparr>NoncesMap = None\<rparr>) 198) = None
   \<and> fmlookup (insert_entries
          [\<lparr>TXID = makeTestTxId 7, Nonce = makeTestNonce 1\<rparr>,
           \<lparr>TXID = makeTestTxId 7, Nonce = makeTestNonce 2\<rparr>] fmempty)
        (makeTestTxId 7) = Some (makeTestNonce 2)"
proof -
  let ?es = "[\<lparr>TXID = makeTestTxId 7, Nonce = makeTestNonce 1\<rparr>,
              \<lparr>TXID = makeTestTxId 7, Nonce = makeTestNonce 2\<rparr>]"
  have sized: "sized_entries ?es"
    by (simp add: sized_entries_def makeTestTxId_def makeTestNonce_def)
  have count: "length ?es \<le> 65535"
    by simp
  have shape: "?es = [] @ \<lparr>TXID = makeTestTxId 7, Nonce = makeTestNonce 1\<rparr> # []
      @ \<lparr>TXID = makeTestTxId 7, Nonce = makeTestNonce 2\<rparr> # []"
    by simp
  have last: "makeTestTxId 7 \<notin> TXID ` set []"
    by simp
  from decode_duplicate_last_wins [OF sized count shape last, of "\<lparr>NoncesMap = None\<rparr>"]
  have "fst (decodeLocalNoncesData (PutUint16 2 @ concat (map entry_bytes ?es))
       (Ptr \<lparr>NoncesMap = None\<rparr>) 198) = None"
    and "fmlookup (insert_entries ?es fmempty) (makeTestTxId 7) = Some (makeTestNonce 2)"
    by simp_all
  with sized last show ?thesis
    by (intro conjI)
qed

text \<open>
  Claim C1 (counterexample). The claim that a failed decode leaves the destination as it
  was does not hold: the decoder replaces the map by a fresh one before it reads the
  entries, and an entry that has been read is inserted at once. In the run below the
  stream announces two entries and ends inside the second; the destination held one entry
  with id \<open>09..09\<close> before the call and holds the entry \<open>01..01\<close> of the stream after it.
\<close>

theorem decode_partial_population_counterexample:
  "decodeLocalNoncesData ([0, 2] @ makeTestTxId 1 @ makeTestNonce 1 @ replicate 10 5)
     (Ptr \<lparr>NoncesMap = Some (fmupd (makeTestTxId 9) (makeTestNonce 9) fmempty)\<rparr>) 198
   = (Some ErrUnexpectedEOF, [],
      Ptr \<lparr>NoncesMap = Some (fmupd (makeTestTxId 1) (makeTestNonce 1) fmempty)\<rparr>)
   \<and> fmupd (makeTestTxId 1) (makeTestNonce 1) fmempty
     \<noteq> fmupd (makeTestTxId 9) (makeTestNonce 9) fmempty"
proof -
  let ?rest = "makeTestTxId 1 @ makeTestNonce 1 @ replicate 10 (5 :: byte)"
  have len: "length ?rest = 108"
    by (simp add: makeTestTxId_def makeTestNonce_def HashSize_def PubNonceSize_def)
  then have "98 \<le> length ?rest"
    by simp
  from complete_entries_long [OF this]
  have ce: "complete_entries ?rest = [\<lparr>TXID = makeTestTxId 1, Nonce = makeTestNonce 1\<rparr>]"
    by (simp add: makeTestTxId_def makeTestNonce_def HashSize_def PubNonceSize_def
        complete_entries_short)
  have sre: "short_read_error ?rest = ErrUnexpectedEOF"
    unfolding short_read_error_def len by (simp add: HashSize_def PubNonceSize_def)
  have two: "(2 :: 64 word) \<le> 198"
    by simp
  have run: "decodeLocalNoncesData ([0, 2] @ ?rest)
     (Ptr \<lparr>NoncesMap = Some (fmupd (makeTestTxId 9) (makeTestNonce 9) fmempty)\<rparr>) 198
   = (Some ErrUnexpectedEOF, [],
      Ptr \<lparr>NoncesMap = Some (fmupd (makeTestTxId 1) (makeTestNonce 1) fmempty)\<rparr>)"
    using decode_after_count [OF two, of 0 2 ?rest]
    by (simp add: Let_def ce sre len HashSize_def PubNonceSize_def)
  have "makeTestTxId 1 \<noteq> makeTestTxId 9"
    by (simp add: makeTestTxId_def HashSize_def)
  then show ?thesis
    using run by (simp add: fmupd_neq)
qed

text \<open>
  Claim C1 (amended). When the decoder fails before the loop (\<open>TooShort\<close>, \<open>LengthMismatch\<close>, or a
  stream that ends inside the count field), the destination holds the entries it held
  before the call. When it fails by a short read inside the entries, the destination holds
  exactly the entries that the stream contains completely after the count field, inserted
  in stream order, and none of those it held before.
\<close>

theorem decode_failure_destination:
  assumes "decodeLocalNoncesData r (Ptr lnd) recordLen = (Some err, r', v')"
  shows "v' = Ptr \<lparr>NoncesMap = Some
           (if 2 \<le> length r \<and> (err = EOF \<or> err = ErrUnexpectedEOF)
            then insert_entries (complete_entries (drop 2 r)) fmempty
            else contents lnd)\<rparr>"
proof (cases "recordLen < 2")
  case True
  with assms show ?thesis
    by (auto simp add: decodeLocalNoncesData_def Let_def contents_def split: if_splits)
next
  case False
  then have two: "2 \<le> recordLen"
    by simp
  consider (none) "r = []" | (one) b where "r = [b]" | (more) b0 b1 rest where "r = b0 # b1 # rest"
    by (cases r rule: list.exhaust [case_names Nil Cons])
      (auto intro: list.exhaust [of "tl r"])
  then show ?thesis
  proof cases
    case none
    with assms False show ?thesis
      by (auto simp add: decodeLocalNoncesData_def Let_def contents_def ReadFull_def)
  next
    case one
    with assms False show ?thesis
      by (auto simp add: decodeLocalNoncesData_def Let_def contents_def ReadFull_def)
  next
    case more
    from assms show ?thesis
      unfolding more decode_after_count [OF two] Let_def
      using short_read_error_cases [of rest]
      by (auto simp add: LengthMismatch_def split: if_splits simp del: Uint16.simps)
  qed
qed

theorem decode_failure_destination_witness:
  "decodeLocalNoncesData ([0, 1] @ replicate 10 5)
     (Ptr \<lparr>NoncesMap = Some (fmupd (makeTestTxId 9) (makeTestNonce 9) fmempty)\<rparr>) 100
   = (Some ErrUnexpectedEOF, [], Ptr \<lparr>NoncesMap = Some fmempty\<rparr>)
   \<and> decodeLocalNoncesData [0, 1]
     (Ptr \<lparr>NoncesMap = Some (fmupd (makeTestTxId 9) (makeTestNonce 9) fmempty)\<rparr>) 2
   = (Some (LengthMismatch 2 100), [],
      Ptr \<lparr>NoncesMap = Some (fmupd (makeTestTxId 9) (makeTestNonce 9) fmempty)\<rparr>)"
proof -
  let ?lnd = "\<lparr>NoncesMap = Some (fmupd (makeTestTxId 9) (makeTestNonce 9) fmempty)\<rparr>"
  have two: "(2 :: 64 word) \<le> 100" "(2 :: 64 word) \<le> 2"
    by simp_all
  have "\<exists>v. decodeLocalNoncesData ([0, 1] @ replicate 10 5) (Ptr ?lnd) 100
      = (Some ErrUnexpectedEOF, [], v)"
    using decode_after_count [OF two(1), of 0 1 "replicate 10 5"]
    by (simp add: Let_def short_read_error_def HashSize_def PubNonceSize_def)
  then obtain v where
    run: "decodeLocalNoncesData ([0, 1] @ replicate 10 5) (Ptr ?lnd) 100
      = (Some ErrUnexpectedEOF, [], v)"
    by blast
  have "\<exists>v. decodeLocalNoncesData [0, 1] (Ptr ?lnd) 2 = (Some (LengthMismatch 2 100), [], v)"
    using decode_after_count [OF two(2), of 0 1 "[]"]
    by (simp add: Let_def HashSize_def PubNonceSize_def)
  then obtain v' where
    run': "decodeLocalNoncesData [0, 1] (Ptr ?lnd) 2 = (Some (LengthMismatch 2 100), [], v')"
    by blast
  show ?thesis
    using decode_failure_destination [OF run] decode_failure_destination [OF run'] run run'
    by (simp add: complete_entries_short contents_def LengthMismatch_def)
qed

section \<open>Facts about the encoder\<close>

subsection \<open>Sorting\<close>

lemma bytes_Compare_less: "bytes_Compare a b < 0 \<longleftrightarrow> a < b"
  by (induction a b rule: bytes_Compare.induct) auto

lemma less_entry_iff: "less_entry a b \<longleftrightarrow> TXID a < TXID b"
  by (simp add: less_entry_def bytes_Compare_less)

lemma set_insert_by: "set (insert_by lt x ys) = insert x (set ys)"
  by (induction ys) auto

lemma length_insert_by: "length (insert_by lt x ys) = Suc (length ys)"
  by (induction ys) auto

lemma set_sort_Slice: "set (sort_Slice xs lt) = set xs"
  by (induction xs) (auto simp add: set_insert_by)

lemma length_sort_Slice: "length (sort_Slice xs lt) = length xs"
  by (induction xs) (auto simp add: length_insert_by)

lemma ascending_insert_by:
  assumes "ascending ys" and "TXID x \<notin> TXID ` set ys"
  shows "ascending (insert_by less_entry x ys)"
  using assms
proof (induction ys)
  case Nil
  then show ?case by simp
next
  case (Cons y ys)
  show ?case
  proof (cases "TXID x < TXID y")
    case True
    with Cons.prems show ?thesis
      by (auto simp add: less_entry_iff)
  next
    case False
    with Cons.prems have "TXID y < TXID x"
      by auto
    with Cons False show ?thesis
      by (auto simp add: less_entry_iff set_insert_by)
  qed
qed

lemma ascending_sort_Slice:
  "distinct (map TXID xs) \<Longrightarrow> ascending (sort_Slice xs less_entry)"
  by (induction xs) (auto simp add: ascending_insert_by set_sort_Slice)

lemma sorted_entries_unique:
  assumes "ascending es" and "ascending es'" and "set es = set es'"
  shows "es = es'"
proof -
  from assms(1,2) have strict: "sorted_wrt (<) (map TXID es)" "sorted_wrt (<) (map TXID es')"
    by (simp_all add: sorted_wrt_map)
  from assms(3) have "set (map TXID es) = set (map TXID es')"
    by simp
  with strict have keys: "map TXID es = map TXID es'"
    by (intro strict_sorted_equal)
  from strict(1) have "distinct (map TXID es)"
    by (simp add: strict_sorted_iff)
  then have "inj_on TXID (set es \<union> set es')"
    using assms(3) by (simp add: distinct_map)
  with keys show ?thesis
    by (simp add: inj_on_map_eq_map)
qed

lemma range_map_keys:
  "set order \<subseteq> fmdom' m \<Longrightarrow> map TXID (range_map m order) = order"
  by (induction order) (auto simp add: fmlookup_dom'_iff)

lemma in_range_map:
  "e \<in> set (range_map m order)
     \<longleftrightarrow> TXID e \<in> set order \<and> fmlookup m (TXID e) = Some (Nonce e)"
proof (induction order)
  case Nil
  then show ?case by simp
next
  case (Cons txid order)
  show ?case
  proof (cases "fmlookup m txid")
    case None
    with Cons show ?thesis
      by auto
  next
    case (Some nonce)
    have "e = \<lparr>TXID = txid, Nonce = nonce\<rparr> \<longleftrightarrow> TXID e = txid \<and> Nonce e = nonce"
      by (cases e) simp
    with Cons Some show ?thesis
      by auto
  qed
qed

lemma set_range_map:
  "set (range_map m order) = {e. TXID e \<in> set order \<and> fmlookup m (TXID e) = Some (Nonce e)}"
  using in_range_map by blast

text \<open>Every map can be visited in some order, so \<open>enumerates\<close> excludes no map.\<close>

lemma enumerates_sorted_keys: "enumerates m (sorted_list_of_fset (fmdom m))"
  by (simp add: enumerates_def fmdom'_alt_def sorted_list_of_fset.rep_eq)

lemma sort_range_map_canonical:
  assumes "enumerates m order"
  shows "sort_Slice (range_map m order) less_entry = canonical_entries m"
proof (rule sorted_entries_unique)
  from assms have "map TXID (range_map m order) = order" and "distinct order"
    by (simp_all add: enumerates_def range_map_keys)
  then show "ascending (sort_Slice (range_map m order) less_entry)"
    by (simp add: ascending_sort_Slice)
next
  have "map TXID (canonical_entries m) = sorted_list_of_fset (fmdom m)"
    by (simp add: canonical_entries_def range_map_keys fmdom'_alt_def)
  moreover have "sorted_wrt (<) (sorted_list_of_fset (fmdom m))"
    by (simp add: sorted_list_of_fset.rep_eq)
  ultimately show "ascending (canonical_entries m)"
    by (simp add: sorted_wrt_map [symmetric, where f = TXID])
next
  from assms show "set (sort_Slice (range_map m order) less_entry) = set (canonical_entries m)"
    by (simp add: set_sort_Slice set_range_map canonical_entries_def enumerates_def fmdom'_alt_def)
qed

lemma length_canonical_entries: "length (canonical_entries m) = len_map m"
proof -
  have "map TXID (canonical_entries m) = sorted_list_of_fset (fmdom m)"
    by (simp add: canonical_entries_def range_map_keys fmdom'_alt_def)
  then have "length (canonical_entries m) = length (sorted_list_of_fset (fmdom m))"
    by (metis length_map)
  then show ?thesis
    by (simp add: len_map_def sorted_list_of_fset.rep_eq fcard.rep_eq)
qed

lemma write_entries_unbounded:
  "room w = None \<Longrightarrow>
   write_entries w es = (None, w\<lparr>buf := buf w @ concat (map entry_bytes es)\<rparr>)"
  by (induction es arbitrary: w) (simp_all add: Write_def entry_bytes_def)

lemma encode_unbounded:
  assumes "enumerates m order" and "room w = None"
  shows "encodeLocalNoncesData w (Ptr \<lparr>NoncesMap = Some m\<rparr>) order
    = (None, w\<lparr>buf := buf w @ PutUint16 (of_nat (len_map m))
                          @ concat (map entry_bytes (canonical_entries m))\<rparr>)"
proof (cases "len_map m > 0")
  case True
  with assms show ?thesis
    by (simp add: encodeLocalNoncesData_def sort_range_map_canonical Write_def
        write_entries_unbounded length_canonical_entries)
next
  case False
  then have none: "len_map m = 0"
    by simp
  then have "canonical_entries m = []"
    using length_canonical_entries [of m] by simp
  with assms(2) none show ?thesis
    by (simp add: encodeLocalNoncesData_def Write_def)
qed

lemma encode_nil_unbounded:
  assumes "room w = None"
  shows "encodeLocalNoncesData w (Ptr \<lparr>NoncesMap = None\<rparr>) order
    = (None, w\<lparr>buf := buf w @ PutUint16 0\<rparr>)"
  using assms by (simp add: encodeLocalNoncesData_def Write_def)


lemma set_canonical_entries:
  "set (canonical_entries m) = {e. fmlookup m (TXID e) = Some (Nonce e)}"
  by (auto simp add: canonical_entries_def set_range_map fmlookup_dom_iff)

lemma keys_canonical_entries:
  "map TXID (canonical_entries m) = sorted_list_of_fset (fmdom m)"
  by (simp add: canonical_entries_def range_map_keys fmdom'_alt_def)

lemma ascending_canonical_entries: "ascending (canonical_entries m)"
proof -
  have "sorted_wrt (<) (sorted_list_of_fset (fmdom m))"
    by (simp add: sorted_list_of_fset.rep_eq)
  then show ?thesis
    by (simp add: sorted_wrt_map [symmetric, where f = TXID] keys_canonical_entries)
qed

lemma sized_canonical_entries:
  "well_sized m \<Longrightarrow> sized_entries (canonical_entries m)"
  by (auto simp add: sized_entries_def list_all_iff set_canonical_entries well_sized_def
      dest: fmpredD)

lemma insert_entries_canonical: "insert_entries (canonical_entries m) fmempty = m"
proof (rule fmap_ext)
  fix k
  let ?ps = "map (\<lambda>e. (TXID e, Nonce e)) (canonical_entries m)"
  have "distinct (map TXID (canonical_entries m))"
    by (simp add: keys_canonical_entries sorted_list_of_fset.rep_eq)
  then have "distinct (map fst (rev ?ps))"
    by (simp add: comp_def rev_map [symmetric])
  then have "map_of (rev ?ps) k = Some v \<longleftrightarrow> (k, v) \<in> set ?ps" for v
    by simp
  also have "(k, v) \<in> set ?ps \<longleftrightarrow> fmlookup m k = Some v" for v
  proof
    assume "fmlookup m k = Some v"
    then have "\<lparr>TXID = k, Nonce = v\<rparr> \<in> set (canonical_entries m)"
      by (simp add: set_canonical_entries)
    then show "(k, v) \<in> set ?ps"
      by force
  qed (auto simp add: set_canonical_entries)
  finally have "map_of (rev ?ps) k = fmlookup m k"
    by (cases "fmlookup m k") (auto intro: option.expand simp add: option.expand)
  then show "fmlookup (insert_entries (canonical_entries m) fmempty) k = fmlookup m k"
    by (simp add: insert_entries_lookup split: option.split)
qed

lemma encode_Ptr_unbounded:
  assumes "enumerates (contents lnd) order" and "room w = None"
  shows "encodeLocalNoncesData w (Ptr lnd) order
    = (None, w\<lparr>buf := buf w @ PutUint16 (of_nat (len_map (contents lnd)))
                          @ concat (map entry_bytes (canonical_entries (contents lnd)))\<rparr>)"
proof (cases "NoncesMap lnd")
  case None
  then have lnd: "lnd = \<lparr>NoncesMap = None\<rparr>"
    by (cases lnd) simp
  have "len_map (fmempty :: (Hash, Musig2Nonce) fmap) = 0"
    by (simp add: len_map_0_iff)
  moreover from this have "canonical_entries fmempty = []"
    using length_canonical_entries [of fmempty] by simp
  ultimately show ?thesis
    using assms(2) by (simp add: lnd encode_nil_unbounded contents_def)
next
  case (Some m)
  then have lnd: "lnd = \<lparr>NoncesMap = Some m\<rparr>"
    by (cases lnd) simp
  with assms show ?thesis
    by (simp add: encode_unbounded contents_def)
qed

subsection \<open>The sink\<close>

lemma Write_error:
  assumes "Write w p = (Some err, w')"
  shows "\<exists>n. room w = Some (n, err)"
  using assms by (auto simp add: Write_def split: option.splits if_splits)

lemma Write_room:
  assumes "Write w p = (None, w')" and "room w' = Some (n', err)"
  shows "\<exists>n. room w = Some (n, err)"
  using assms by (auto simp add: Write_def split: option.splits if_splits)

lemma write_entries_error:
  assumes "write_entries w es = (Some err, w')"
  shows "\<exists>n. room w = Some (n, err)"
  using assms
proof (induction es arbitrary: w)
  case Nil
  then show ?case by simp
next
  case (Cons e es)
  obtain r1 w1 where w1: "Write w (TXID e) = (r1, w1)"
    by (cases "Write w (TXID e)")
  show ?case
  proof (cases r1)
    case (Some err1)
    with Cons.prems w1 have "err1 = err"
      by simp
    with Some w1 show ?thesis
      by (auto dest: Write_error)
  next
    case None
    obtain r2 w2 where w2: "Write w1 (Nonce e) = (r2, w2)"
      by (cases "Write w1 (Nonce e)")
    have "\<exists>n. room w1 = Some (n, err)"
    proof (cases r2)
      case (Some err2)
      with Cons.prems w1 w2 None have "err2 = err"
        by simp
      with Some w2 show ?thesis
        by (auto dest: Write_error)
    next
      case r2: None
      with Cons.prems w1 w2 None have "write_entries w2 es = (Some err, w')"
        by simp
      then have "\<exists>n. room w2 = Some (n, err)"
        by (rule Cons.IH)
      with w2 r2 show ?thesis
        by (auto dest: Write_room)
    qed
    with w1 None show ?thesis
      by (auto dest: Write_room)
  qed
qed

lemma encode_error_is_sink_error:
  assumes "encodeLocalNoncesData w (Ptr lnd) order = (Some err, w')"
  shows "\<exists>n. room w = Some (n, err)"
proof -
  define counted where "counted =
     (case NoncesMap lnd of
        None \<Rightarrow> (0 :: 16 word, [])
      | Some m \<Rightarrow>
          if len_map m > 0
          then (let sorted = sort_Slice (range_map m order) less_entry
                in (of_nat (length sorted), sorted))
          else (0, []))"
  obtain numEntries sortedEntries where counted: "counted = (numEntries, sortedEntries)"
    by (cases counted)
  have run: "encodeLocalNoncesData w (Ptr lnd) order =
       (case Write w (PutUint16 numEntries) of
          (Some err, w1) \<Rightarrow> (Some err, w1)
        | (None, w1) \<Rightarrow> write_entries w1 sortedEntries)"
    unfolding encodeLocalNoncesData_def val.case counted_def [symmetric] counted
    by simp
  obtain r1 w1 where w1: "Write w (PutUint16 numEntries) = (r1, w1)"
    by (cases "Write w (PutUint16 numEntries)")
  show ?thesis
  proof (cases r1)
    case (Some err1)
    with assms run w1 have "err1 = err"
      by simp
    with Some w1 show ?thesis
      by (auto dest: Write_error)
  next
    case None
    with assms run w1 have "write_entries w1 sortedEntries = (Some err, w')"
      by simp
    then have "\<exists>n. room w1 = Some (n, err)"
      by (rule write_entries_error)
    with w1 None show ?thesis
      by (auto dest: Write_room)
  qed
qed

subsection \<open>The inputs of the examples\<close>

lemma contents_simps [simp]:
  "contents \<lparr>NoncesMap = Some m\<rparr> = m"
  "contents \<lparr>NoncesMap = None\<rparr> = fmempty"
  by (simp_all add: contents_def)

lemma enumerates_len_map: "enumerates m order \<Longrightarrow> len_map m = length order"
  by (simp add: enumerates_def len_map_def fcard.rep_eq fmdom'_alt_def [symmetric]
      distinct_card [symmetric])

lemma makeTestTxId_eq_iff [simp]: "makeTestTxId a = makeTestTxId b \<longleftrightarrow> a = b"
  by (simp add: makeTestTxId_def HashSize_def)

lemma replicate_less_iff: "replicate n a < replicate n (b :: byte) \<longleftrightarrow> 0 < n \<and> a < b"
  by (induction n) auto

lemma makeTestTxId_less_iff [simp]: "makeTestTxId a < makeTestTxId b \<longleftrightarrow> a < b"
  by (simp add: makeTestTxId_def HashSize_def replicate_less_iff)

lemma well_sized_multiple_entries: "well_sized multiple_entries"
  by (auto simp add: well_sized_def multiple_entries_def HashSize_def PubNonceSize_def
      intro!: fmpred_upd)

lemma enumerates_multiple_entries:
  "enumerates multiple_entries [makeTestTxId 3, makeTestTxId 1, makeTestTxId 2]"
  "enumerates multiple_entries [makeTestTxId 1, makeTestTxId 2, makeTestTxId 3]"
  by (auto simp add: enumerates_def multiple_entries_def)

lemma encode_multiple_entries:
  "encodeLocalNoncesData \<lparr>buf = [], room = None\<rparr> (Ptr \<lparr>NoncesMap = Some multiple_entries\<rparr>)
     [makeTestTxId 3, makeTestTxId 1, makeTestTxId 2]
   = (None, \<lparr>buf = [0, 3] @ makeTestTxId 1 @ makeTestNonce 1 @ makeTestTxId 2 @ makeTestNonce 2
                  @ makeTestTxId 3 @ makeTestNonce 3, room = None\<rparr>)"
proof -
  have "len_map multiple_entries = 3"
    using enumerates_multiple_entries(1) by (simp add: enumerates_len_map)
  then show ?thesis
    by (simp add: encodeLocalNoncesData_def multiple_entries_def less_entry_iff
        PutUint16_def Write_def)
qed

lemma length_txid_of_nat: "length (txid_of_nat i) = 32"
  by (simp add: txid_of_nat_def)

lemma inj_txid_of_nat: "inj_on txid_of_nat {0..<65536}"
proof (rule inj_onI)
  fix i j :: nat
  assume i: "i \<in> {0..<65536}" and j: "j \<in> {0..<65536}"
    and eq: "txid_of_nat i = txid_of_nat j"
  from eq have "unat (of_nat (i div 256) :: byte) = unat (of_nat (j div 256) :: byte)"
    and "unat (of_nat (i mod 256) :: byte) = unat (of_nat (j mod 256) :: byte)"
    by (simp_all add: txid_of_nat_def)
  moreover from i j have "i div 256 < 256" "j div 256 < 256"
    by auto
  ultimately have "i div 256 = j div 256" and "i mod 256 = j mod 256"
    by (simp_all add: unat_of_nat)
  then show "i = j"
    by (metis div_mult_mod_eq)
qed

lemma length_many_txids: "length many_txids = 65536"
  unfolding many_txids_def length_map length_upt by simp

lemma distinct_many_txids: "distinct many_txids"
  unfolding many_txids_def distinct_map set_upt
  using inj_txid_of_nat distinct_upt by (rule conjI [rotated])

lemma set_many_txids: "set many_txids = txid_of_nat ` {0..<65536}"
  unfolding many_txids_def set_map set_upt by (rule refl)

lemma enumerates_many_entries: "enumerates many_entries many_txids"
proof -
  have "map fst (map (\<lambda>txid. (txid, makeTestNonce 0)) many_txids) = many_txids"
    by (simp add: comp_def)
  then have "fmdom' many_entries = set many_txids"
    by (simp only: many_entries_def fmdom'_alt_def fmdom_fmap_of_list fset_of_list.rep_eq)
  with distinct_many_txids show ?thesis
    by (simp only: enumerates_def simp_thms)
qed

lemma well_sized_many_entries: "well_sized many_entries"
proof -
  have "length txid = HashSize \<and> length nonce = PubNonceSize"
    if "fmlookup many_entries txid = Some nonce" for txid nonce
  proof -
    from that have "(txid, nonce) \<in> set (map (\<lambda>txid. (txid, makeTestNonce 0)) many_txids)"
      unfolding many_entries_def by (rule fmap_of_list_SomeD)
    then have "txid \<in> set many_txids" and "nonce = makeTestNonce 0"
      by auto
    then show ?thesis
      unfolding set_many_txids
      by (auto simp add: length_txid_of_nat HashSize_def PubNonceSize_def)
  qed
  then show ?thesis
    unfolding well_sized_def by (intro fmpredI) auto
qed

lemma encode_many_entries:
  "encodeLocalNoncesData \<lparr>buf = [], room = None\<rparr> (Ptr \<lparr>NoncesMap = Some many_entries\<rparr>) many_txids
   = (None, \<lparr>buf = 0 # 0 # concat (map entry_bytes (canonical_entries many_entries)),
              room = None\<rparr>)"
proof -
  have "len_map many_entries = 65536"
    using enumerates_many_entries by (simp add: enumerates_len_map length_many_txids)
  moreover have "PutUint16 (of_nat 65536) = [0, 0]"
    by (simp add: PutUint16_def)
  ultimately show ?thesis
    using encode_unbounded [OF enumerates_many_entries, of "\<lparr>buf = [], room = None\<rparr>"]
    by simp
qed

lemma length_many_bytes:
  "length (concat (map entry_bytes (canonical_entries many_entries))) = 6422528"
proof -
  have "len_map many_entries = 65536"
    using enumerates_many_entries by (simp add: enumerates_len_map length_many_txids)
  then show ?thesis
    using length_concat_entries [OF sized_canonical_entries [OF well_sized_many_entries]]
    by (simp add: length_canonical_entries)
qed

lemma entry_bytes_fun: "entry_bytes = (\<lambda>e. TXID e @ Nonce e)"
  by (rule ext) (simp add: entry_bytes_def)

lemma sized_entries_literal:
  "sized_entries es \<longleftrightarrow> list_all (\<lambda>e. length (TXID e) = 32 \<and> length (Nonce e) = 66) es"
  by (simp add: sized_entries_def HashSize_def PubNonceSize_def)

lemma entries_multiple_entries:
  "{e. fmlookup multiple_entries (TXID e) = Some (Nonce e)}
   = {\<lparr>TXID = makeTestTxId 1, Nonce = makeTestNonce 1\<rparr>,
      \<lparr>TXID = makeTestTxId 2, Nonce = makeTestNonce 2\<rparr>,
      \<lparr>TXID = makeTestTxId 3, Nonce = makeTestNonce 3\<rparr>}"
proof (rule set_eqI)
  fix e :: LocalNonceEntry
  obtain txid nonce where e: "e = \<lparr>TXID = txid, Nonce = nonce\<rparr>"
    by (cases e) simp
  show "e \<in> {e. fmlookup multiple_entries (TXID e) = Some (Nonce e)}
    \<longleftrightarrow> e \<in> {\<lparr>TXID = makeTestTxId 1, Nonce = makeTestNonce 1\<rparr>,
      \<lparr>TXID = makeTestTxId 2, Nonce = makeTestNonce 2\<rparr>,
      \<lparr>TXID = makeTestTxId 3, Nonce = makeTestNonce 3\<rparr>}"
    unfolding e multiple_entries_def
    by (auto split: if_splits)
qed

section \<open>Properties of the encoder\<close>

text \<open>
  Claim C3. Whatever the order in which the keys of the map are visited, the encoder
  returns the same result, on every writer. On a writer that does not fail, the bytes it
  appends are the count followed by the entries of the map in ascending order of their
  ids, where ids are compared lexicographically from the first byte on and bytes as
  unsigned numbers; each entry of the map is written once and nothing else is.
\<close>

theorem encode_canonical_order:
  assumes "enumerates m order" and "enumerates m order'"
  shows "encodeLocalNoncesData w (Ptr \<lparr>NoncesMap = Some m\<rparr>) order
       = encodeLocalNoncesData w (Ptr \<lparr>NoncesMap = Some m\<rparr>) order'
     \<and> (room w = None \<longrightarrow>
          encodeLocalNoncesData w (Ptr \<lparr>NoncesMap = Some m\<rparr>) order
          = (None, w\<lparr>buf := buf w @ PutUint16 (of_nat (len_map m))
                                @ concat (map entry_bytes (canonical_entries m))\<rparr>))
     \<and> sorted_wrt (\<lambda>a b. TXID a < TXID b) (canonical_entries m)
     \<and> set (canonical_entries m) = {e. fmlookup m (TXID e) = Some (Nonce e)}"
proof -
  have "encodeLocalNoncesData w (Ptr \<lparr>NoncesMap = Some m\<rparr>) order
       = encodeLocalNoncesData w (Ptr \<lparr>NoncesMap = Some m\<rparr>) order'"
    by (simp add: encodeLocalNoncesData_def sort_range_map_canonical [OF assms(1)]
        sort_range_map_canonical [OF assms(2)])
  moreover have "room w = None \<longrightarrow>
          encodeLocalNoncesData w (Ptr \<lparr>NoncesMap = Some m\<rparr>) order
          = (None, w\<lparr>buf := buf w @ PutUint16 (of_nat (len_map m))
                                @ concat (map entry_bytes (canonical_entries m))\<rparr>)"
    by (simp add: encode_unbounded [OF assms(1)])
  ultimately show ?thesis
    using ascending_canonical_entries [of m] set_canonical_entries [of m] by simp
qed

theorem encode_canonical_order_witness:
  "enumerates multiple_entries [makeTestTxId 3, makeTestTxId 1, makeTestTxId 2]
   \<and> enumerates multiple_entries [makeTestTxId 1, makeTestTxId 2, makeTestTxId 3]
   \<and> encodeLocalNoncesData \<lparr>buf = [], room = None\<rparr>
         (Ptr \<lparr>NoncesMap = Some multiple_entries\<rparr>)
         [makeTestTxId 3, makeTestTxId 1, makeTestTxId 2]
     = encodeLocalNoncesData \<lparr>buf = [], room = None\<rparr>
         (Ptr \<lparr>NoncesMap = Some multiple_entries\<rparr>)
         [makeTestTxId 1, makeTestTxId 2, makeTestTxId 3]
   \<and> encodeLocalNoncesData \<lparr>buf = [], room = None\<rparr>
         (Ptr \<lparr>NoncesMap = Some multiple_entries\<rparr>)
         [makeTestTxId 1, makeTestTxId 2, makeTestTxId 3]
     = (None, \<lparr>buf = [0, 3] @ makeTestTxId 1 @ makeTestNonce 1
                    @ makeTestTxId 2 @ makeTestNonce 2
                    @ makeTestTxId 3 @ makeTestNonce 3, room = None\<rparr>)"
proof -
  note enum = enumerates_multiple_entries
  from encode_canonical_order [OF enum(1) enum(2), of "\<lparr>buf = [], room = None\<rparr>"]
  have same: "encodeLocalNoncesData \<lparr>buf = [], room = None\<rparr>
         (Ptr \<lparr>NoncesMap = Some multiple_entries\<rparr>)
         [makeTestTxId 3, makeTestTxId 1, makeTestTxId 2]
     = encodeLocalNoncesData \<lparr>buf = [], room = None\<rparr>
         (Ptr \<lparr>NoncesMap = Some multiple_entries\<rparr>)
         [makeTestTxId 1, makeTestTxId 2, makeTestTxId 3]"
    by (rule conjunct1)
  have "encodeLocalNoncesData \<lparr>buf = [], room = None\<rparr>
         (Ptr \<lparr>NoncesMap = Some multiple_entries\<rparr>)
         [makeTestTxId 1, makeTestTxId 2, makeTestTxId 3]
     = (None, \<lparr>buf = [0, 3] @ makeTestTxId 1 @ makeTestNonce 1
                    @ makeTestTxId 2 @ makeTestNonce 2
                    @ makeTestTxId 3 @ makeTestNonce 3, room = None\<rparr>)"
    by (simp only: same [symmetric] encode_multiple_entries)
  with enum same show ?thesis
    by (intro conjI)
qed

text \<open>
  Claim C4. For a destination with at most 65535 entries, whose ids have 32 bytes and whose
  nonces 66, the encoder appends to a writer that does not fail the two bytes of the count,
  most significant first, and then, for each entry, its 32 id bytes followed by its 66
  nonce bytes, with nothing between them. The entries written are exactly the entries of
  the map, each once, in ascending order of their ids. That makes \<open>2 + count * 98\<close> bytes
  in all, which is also what the length function of the record reports. Without entries
  (a nil or an empty map) the encoder appends the two bytes \<open>00 00\<close>.
\<close>

theorem encode_length:
  assumes "well_sized (contents lnd)" and "enumerates (contents lnd) order"
    and "len_map (contents lnd) \<le> 65535" and "room w = None"
  shows "encodeLocalNoncesData w (Ptr lnd) order
       = (None, w\<lparr>buf := buf w
            @ [of_nat (len_map (contents lnd) div 256), of_nat (len_map (contents lnd) mod 256)]
            @ concat (map (\<lambda>e. TXID e @ Nonce e) (canonical_entries (contents lnd)))\<rparr>)
     \<and> set (canonical_entries (contents lnd))
         = {e. fmlookup (contents lnd) (TXID e) = Some (Nonce e)}
     \<and> sorted_wrt (\<lambda>a b. TXID a < TXID b) (canonical_entries (contents lnd))
     \<and> length (canonical_entries (contents lnd)) = len_map (contents lnd)
     \<and> list_all (\<lambda>e. length (TXID e) = 32 \<and> length (Nonce e) = 66)
           (canonical_entries (contents lnd))
     \<and> length ([of_nat (len_map (contents lnd) div 256) :: byte,
                  of_nat (len_map (contents lnd) mod 256)]
            @ concat (map (\<lambda>e. TXID e @ Nonce e) (canonical_entries (contents lnd))))
         = 2 + len_map (contents lnd) * 98
     \<and> unat (RecordLength lnd) = 2 + len_map (contents lnd) * 98
     \<and> (len_map (contents lnd) = 0 \<longrightarrow>
          encodeLocalNoncesData w (Ptr lnd) order = (None, w\<lparr>buf := buf w @ [0, 0]\<rparr>))"
proof -
  let ?m = "contents lnd"
  from assms(3) have count: "len_map ?m < 65536"
    by simp
  have run: "encodeLocalNoncesData w (Ptr lnd) order
       = (None, w\<lparr>buf := buf w
            @ [of_nat (len_map ?m div 256), of_nat (len_map ?m mod 256)]
            @ concat (map (\<lambda>e. TXID e @ Nonce e) (canonical_entries ?m))\<rparr>)"
    by (simp only: encode_Ptr_unbounded [OF assms(2,4)] PutUint16_of_nat [OF count]
        entry_bytes_fun)
  have sized: "sized_entries (canonical_entries ?m)"
    using assms(1) by (rule sized_canonical_entries)
  then have sizes: "list_all (\<lambda>e. length (TXID e) = 32 \<and> length (Nonce e) = 66)
      (canonical_entries ?m)"
    by (simp only: sized_entries_literal)
  have len: "length ([of_nat (len_map ?m div 256) :: byte, of_nat (len_map ?m mod 256)]
            @ concat (map (\<lambda>e. TXID e @ Nonce e) (canonical_entries ?m)))
      = 2 + len_map ?m * 98"
    using length_concat_entries [OF sized]
    by (simp add: length_canonical_entries entry_bytes_fun)
  from count have bound: "2 + len_map ?m * 98 < 2 ^ 64"
    by simp
  have "unat (of_nat (2 + len_map ?m * 98) :: 64 word) = 2 + len_map ?m * 98"
    unfolding unat_of_nat using bound by simp
  then have rl: "unat (RecordLength lnd) = 2 + len_map ?m * 98"
    by (cases "NoncesMap lnd")
      (auto simp add: RecordLength_def contents_def HashSize_def PubNonceSize_def len_map_0_iff
        simp del: of_nat_add of_nat_mult)
  have "len_map ?m = 0 \<longrightarrow> canonical_entries ?m = []"
    using length_canonical_entries [of ?m] by (metis length_0_conv)
  with run have empty: "len_map ?m = 0 \<longrightarrow>
      encodeLocalNoncesData w (Ptr lnd) order = (None, w\<lparr>buf := buf w @ [0, 0]\<rparr>)"
    by simp
  from run set_canonical_entries [of ?m] ascending_canonical_entries [of ?m]
    length_canonical_entries [of ?m] sizes len rl empty
  show ?thesis
    by (intro conjI)
qed

theorem encode_length_witness:
  "well_sized (contents \<lparr>NoncesMap = Some multiple_entries\<rparr>)
   \<and> enumerates (contents \<lparr>NoncesMap = Some multiple_entries\<rparr>)
         [makeTestTxId 3, makeTestTxId 1, makeTestTxId 2]
   \<and> len_map (contents \<lparr>NoncesMap = Some multiple_entries\<rparr>) \<le> 65535
   \<and> encodeLocalNoncesData \<lparr>buf = [], room = None\<rparr>
         (Ptr \<lparr>NoncesMap = Some multiple_entries\<rparr>)
         [makeTestTxId 3, makeTestTxId 1, makeTestTxId 2]
       = (None, \<lparr>buf = [0, 3] @ replicate 32 1 @ replicate 66 1
                      @ replicate 32 2 @ replicate 66 2
                      @ replicate 32 3 @ replicate 66 3, room = None\<rparr>)
   \<and> length ([0, 3] @ replicate 32 1 @ replicate 66 1
              @ replicate 32 2 @ replicate 66 2
              @ replicate 32 3 @ replicate 66 (3 :: byte)) = 2 + 3 * 98
   \<and> unat (RecordLength \<lparr>NoncesMap = Some multiple_entries\<rparr>) = 2 + 3 * 98
   \<and> well_sized (contents \<lparr>NoncesMap = None\<rparr>)
   \<and> enumerates (contents \<lparr>NoncesMap = None\<rparr>) []
   \<and> len_map (contents \<lparr>NoncesMap = None\<rparr>) = 0
   \<and> encodeLocalNoncesData \<lparr>buf = [], room = None\<rparr> (Ptr \<lparr>NoncesMap = None\<rparr>) []
       = (None, \<lparr>buf = [0, 0], room = None\<rparr>)"
proof -
  let ?lnd = "\<lparr>NoncesMap = Some multiple_entries\<rparr>"
  let ?order = "[makeTestTxId 3, makeTestTxId 1, makeTestTxId 2]"
  let ?nil = "\<lparr>NoncesMap = None\<rparr>"
  let ?es = "[\<lparr>TXID = makeTestTxId 1, Nonce = makeTestNonce 1\<rparr>,
              \<lparr>TXID = makeTestTxId 2, Nonce = makeTestNonce 2\<rparr>,
              \<lparr>TXID = makeTestTxId 3, Nonce = makeTestNonce 3\<rparr>]"
  have count: "len_map multiple_entries = 3"
    using enumerates_multiple_entries(1) by (simp add: enumerates_len_map)
  have sized: "well_sized (contents ?lnd)"
    by (simp add: well_sized_multiple_entries)
  have enum: "enumerates (contents ?lnd) ?order"
    by (simp add: enumerates_multiple_entries)
  have small: "len_map (contents ?lnd) \<le> 65535"
    by (simp add: count)
  have unbounded: "room \<lparr>buf = [], room = None\<rparr> = None"
    by simp
  note inst = encode_length [OF sized enum small unbounded]
  from inst have entries: "set (canonical_entries multiple_entries)
      = {e. fmlookup multiple_entries (TXID e) = Some (Nonce e)}"
    and asc: "ascending (canonical_entries multiple_entries)"
    by simp_all
  have "ascending ?es"
    by simp
  moreover have "set (canonical_entries multiple_entries) = set ?es"
    unfolding entries entries_multiple_entries by simp
  ultimately have canonical: "canonical_entries multiple_entries = ?es"
    using asc by (intro sorted_entries_unique)
  from inst have "encodeLocalNoncesData \<lparr>buf = [], room = None\<rparr> (Ptr ?lnd) ?order
       = (None, \<lparr>buf = [0, 3] @ concat (map (\<lambda>e. TXID e @ Nonce e)
            (canonical_entries multiple_entries)), room = None\<rparr>)"
    by (simp add: count)
  then have bytes: "encodeLocalNoncesData \<lparr>buf = [], room = None\<rparr> (Ptr ?lnd) ?order
       = (None, \<lparr>buf = [0, 3] @ replicate 32 1 @ replicate 66 1
                      @ replicate 32 2 @ replicate 66 2
                      @ replicate 32 3 @ replicate 66 3, room = None\<rparr>)"
    unfolding canonical
    by (simp add: makeTestTxId_def makeTestNonce_def HashSize_def PubNonceSize_def)
  have len: "length ([0, 3] @ replicate 32 1 @ replicate 66 1
              @ replicate 32 2 @ replicate 66 2
              @ replicate 32 3 @ replicate 66 (3 :: byte)) = 2 + 3 * 98"
    by simp
  from inst have rl: "unat (RecordLength ?lnd) = 2 + 3 * 98"
    by (simp add: count)
  have sized0: "well_sized (contents ?nil)"
    by (simp add: well_sized_def)
  have enum0: "enumerates (contents ?nil) []"
    by (simp add: enumerates_def)
  have none: "len_map (contents ?nil) = 0"
    by (simp add: len_map_0_iff)
  then have small0: "len_map (contents ?nil) \<le> 65535"
    by simp
  from encode_length [OF sized0 enum0 small0 unbounded] none
  have zero: "encodeLocalNoncesData \<lparr>buf = [], room = None\<rparr> (Ptr ?nil) []
       = (None, \<lparr>buf = [0, 0], room = None\<rparr>)"
    by simp
  from sized enum small bytes len rl sized0 enum0 none zero show ?thesis
    by (intro conjI)
qed

text \<open>
  Claim C2 (counterexample). For 65536 entries the round trip fails: the count wraps to
  0, the encoder succeeds and writes \<open>00 00\<close> followed by all the entries, and the decoder
  refuses these bytes, because a count of 0 announces 2 bytes and not 6422530.
\<close>

theorem roundtrip_65536_counterexample:
  "well_sized many_entries \<and> enumerates many_entries many_txids
   \<and> fst (encodeLocalNoncesData \<lparr>buf = [], room = None\<rparr>
            (Ptr \<lparr>NoncesMap = Some many_entries\<rparr>) many_txids) = None
   \<and> fst (decodeLocalNoncesData
        (buf (snd (encodeLocalNoncesData \<lparr>buf = [], room = None\<rparr>
            (Ptr \<lparr>NoncesMap = Some many_entries\<rparr>) many_txids)))
        (Ptr \<lparr>NoncesMap = Some fmempty\<rparr>)
        (of_nat (length (buf (snd (encodeLocalNoncesData \<lparr>buf = [], room = None\<rparr>
            (Ptr \<lparr>NoncesMap = Some many_entries\<rparr>) many_txids))))))
     = Some (LengthMismatch 6422530 2)"
proof -
  have two: "(2 :: 64 word) \<le> 6422530"
    by simp
  have "fst (decodeLocalNoncesData
      (0 # 0 # concat (map entry_bytes (canonical_entries many_entries)))
      (Ptr \<lparr>NoncesMap = Some fmempty\<rparr>) 6422530) = Some (LengthMismatch 6422530 2)"
    by (simp add: decode_after_count [OF two] HashSize_def PubNonceSize_def)
  then show ?thesis
    by (simp add: encode_many_entries length_many_bytes well_sized_many_entries
        enumerates_many_entries)
qed

text \<open>
  Claim C2 (amended). For a map of at most 65535 entries, with ids of 32 bytes and nonces of 66,
  the encoder succeeds on an empty buffer, and the decoder, given the bytes written and
  their number as the declared length, succeeds on every destination, consumes all the
  bytes and leaves in the destination exactly the entries of the map that was encoded
  (a nil map comes back as an empty one).
\<close>

theorem encode_decode_roundtrip:
  assumes "well_sized (contents src)" and "enumerates (contents src) order"
    and "len_map (contents src) \<le> 65535"
  shows "\<exists>bytes. encodeLocalNoncesData \<lparr>buf = [], room = None\<rparr> (Ptr src) order
          = (None, \<lparr>buf = bytes, room = None\<rparr>)
       \<and> decodeLocalNoncesData bytes (Ptr dst) (of_nat (length bytes))
          = (None, [], Ptr \<lparr>NoncesMap = Some (contents src)\<rparr>)"
proof -
  let ?m = "contents src"
  let ?es = "canonical_entries ?m"
  let ?bytes = "PutUint16 (of_nat (length ?es)) @ concat (map entry_bytes ?es)"
  have sized: "sized_entries ?es"
    using assms(1) by (rule sized_canonical_entries)
  have count: "length ?es \<le> 65535"
    using assms(3) by (simp add: length_canonical_entries)
  have "encodeLocalNoncesData \<lparr>buf = [], room = None\<rparr> (Ptr src) order
          = (None, \<lparr>buf = ?bytes, room = None\<rparr>)"
    using encode_Ptr_unbounded [OF assms(2), of "\<lparr>buf = [], room = None\<rparr>"]
    by (simp add: length_canonical_entries)
  moreover have "length ?bytes = 2 + length ?es * 98"
    by (simp add: length_concat_entries [OF sized] PutUint16_def)
  then have "decodeLocalNoncesData ?bytes (Ptr dst) (of_nat (length ?bytes))
          = (None, [], Ptr \<lparr>NoncesMap = Some ?m\<rparr>)"
    using decode_well_formed [OF sized count, of dst]
    by (simp only: insert_entries_canonical)
  ultimately show ?thesis
    by blast
qed

theorem encode_decode_roundtrip_witness:
  "well_sized (contents \<lparr>NoncesMap = Some multiple_entries\<rparr>)
   \<and> enumerates (contents \<lparr>NoncesMap = Some multiple_entries\<rparr>)
         [makeTestTxId 3, makeTestTxId 1, makeTestTxId 2]
   \<and> len_map (contents \<lparr>NoncesMap = Some multiple_entries\<rparr>) \<le> 65535
   \<and> decodeLocalNoncesData
        ([0, 3] @ makeTestTxId 1 @ makeTestNonce 1 @ makeTestTxId 2 @ makeTestNonce 2
           @ makeTestTxId 3 @ makeTestNonce 3)
        (Ptr \<lparr>NoncesMap = Some fmempty\<rparr>) 296
     = (None, [], Ptr \<lparr>NoncesMap = Some multiple_entries\<rparr>)"
proof -
  let ?lnd = "\<lparr>NoncesMap = Some multiple_entries\<rparr>"
  let ?order = "[makeTestTxId 3, makeTestTxId 1, makeTestTxId 2]"
  have sized: "well_sized (contents ?lnd)"
    by (simp add: well_sized_multiple_entries)
  have enum: "enumerates (contents ?lnd) ?order"
    by (simp add: enumerates_multiple_entries)
  have small: "len_map (contents ?lnd) \<le> 65535"
    using enumerates_multiple_entries(1) by (simp add: enumerates_len_map)
  from encode_decode_roundtrip [OF sized enum small, of "\<lparr>NoncesMap = Some fmempty\<rparr>"]
  have "decodeLocalNoncesData
        ([0, 3] @ makeTestTxId 1 @ makeTestNonce 1 @ makeTestTxId 2 @ makeTestNonce 2
           @ makeTestTxId 3 @ makeTestNonce 3)
        (Ptr \<lparr>NoncesMap = Some fmempty\<rparr>) 296
     = (None, [], Ptr ?lnd)"
    by (simp add: encode_multiple_entries)
  with sized enum small show ?thesis
    by (intro conjI)
qed

text \<open>
  Claim C9. The encoder converts the number of entries to 16 bits without a check. On the
  map of 65536 entries it returns no error, and the output starts with the count \<open>00 00\<close>
  although 65536 entries follow it. (That the encoder returns no error of its own is lemma
  \<open>encode_error_is_sink_error\<close>: an error it returns on a \<^verbatim>\<open>*LocalNoncesData\<close> is the
  error of the sink.)
\<close>

theorem encode_count_wraps:
  "len_map many_entries = 65536
   \<and> fst (encodeLocalNoncesData \<lparr>buf = [], room = None\<rparr>
            (Ptr \<lparr>NoncesMap = Some many_entries\<rparr>) many_txids) = None
   \<and> take 2 (buf (snd (encodeLocalNoncesData \<lparr>buf = [], room = None\<rparr>
            (Ptr \<lparr>NoncesMap = Some many_entries\<rparr>) many_txids))) = [0, 0]
   \<and> length (buf (snd (encodeLocalNoncesData \<lparr>buf = [], room = None\<rparr>
            (Ptr \<lparr>NoncesMap = Some many_entries\<rparr>) many_txids))) = 2 + 65536 * 98"
proof -
  have "len_map many_entries = 65536"
    using enumerates_many_entries by (simp add: enumerates_len_map length_many_txids)
  then show ?thesis
    by (simp add: encode_many_entries length_many_bytes)
qed

end
